theory Spec2Isabelle
  imports Main "HOL-Library.AList" "HOL-Library.Multiset"
begin

section \<open>Values and objects\<close>

text \<open>
  The state values of \<^verbatim>\<open>src/types/index.ts\<close> (\<^verbatim>\<open>StateValue\<close>): string, number, boolean,
  null, undefined, and composites (arrays and objects). A composite is a reference
  \<open>Ref p\<close> into a heap that maps the reference to the object's own enumerable
  string-keyed properties (an array has the keys \<^verbatim>\<open>"0"\<close>, \<^verbatim>\<open>"1"\<close>, ...). The list is in
  the order in which the keys were added; \<^verbatim>\<open>Object.keys\<close> lists integer-like keys before
  the others, which changes the order in which \<^verbatim>\<open>shallowEqual\<close> visits the keys and not
  what it returns.

  The numbers are the integers (\<open>Num 0\<close> is the positive zero), the negative zero
  and NaN. \<^verbatim>\<open>Object.is\<close> is then equality of values: two primitives are the same value
  when they are equal (NaN is the same value as NaN, and the two zeros differ), two
  composites when they are the same reference.
\<close>

type_synonym ident = nat

datatype val =
  Undefined | Null | Bool bool | Num int | NegZero | NaN | Str string | Ref ident

type_synonym props = "(string \<times> val) list"

type_synonym heap = "ident \<Rightarrow> props"

definition objectIs :: "val \<Rightarrow> val \<Rightarrow> bool" where
  "objectIs a b = (a = b)"

fun typeof :: "val \<Rightarrow> string" where
  "typeof Undefined = ''undefined''"
| "typeof Null = ''object''"
| "typeof (Bool _) = ''boolean''"
| "typeof (Num _) = ''number''"
| "typeof NegZero = ''number''"
| "typeof NaN = ''number''"
| "typeof (Str _) = ''string''"
| "typeof (Ref _) = ''object''"

text \<open>The own properties of a value; only ever read for a reference.\<close>

fun ownProps :: "heap \<Rightarrow> val \<Rightarrow> props" where
  "ownProps h (Ref p) = h p"
| "ownProps h _ = []"

definition keys :: "heap \<Rightarrow> val \<Rightarrow> string list" where
  "keys h a = map fst (ownProps h a)"

definition hasOwnProperty :: "heap \<Rightarrow> val \<Rightarrow> string \<Rightarrow> bool" where
  "hasOwnProperty h b k = (k \<in> set (keys h b))"

text \<open>The property read \<^verbatim>\<open>a[k]\<close>: the own property, \<^verbatim>\<open>undefined\<close> when there is none.\<close>

definition getProp :: "heap \<Rightarrow> val \<Rightarrow> string \<Rightarrow> val" where
  "getProp h a k = (case map_of (ownProps h a) k of Some v \<Rightarrow> v | None \<Rightarrow> Undefined)"

section \<open>shallowEqual\<close>

text \<open>The \<^verbatim>\<open>for\<close> loop over \<^verbatim>\<open>keysA\<close>, from the current index on.\<close>

fun compareKeys :: "heap \<Rightarrow> val \<Rightarrow> val \<Rightarrow> string list \<Rightarrow> bool" where
  "compareKeys h a b [] = True"
| "compareKeys h a b (k # ks) =
     (if \<not> hasOwnProperty h b k \<or> \<not> objectIs (getProp h a k) (getProp h b k)
      then False
      else compareKeys h a b ks)"

definition shallowEqual :: "heap \<Rightarrow> val \<Rightarrow> val \<Rightarrow> bool" where
  "shallowEqual h a b =
     (if objectIs a b then True
      else if typeof a \<noteq> ''object'' \<or> a = Null \<or> typeof b \<noteq> ''object'' \<or> b = Null
      then False
      else
        let keysA = keys h a; keysB = keys h b in
        if length keysA \<noteq> length keysB then False
        else compareKeys h a b keysA)"

text \<open>A composite in the sense of the specification: an object or array, not null.\<close>

definition isComposite :: "val \<Rightarrow> bool" where
  "isComposite v = (case v of Ref _ \<Rightarrow> True | _ \<Rightarrow> False)"

section \<open>Object spread\<close>

text \<open>
  Copying the own properties of a source onto a target, in order: a key the target has
  keeps its place and takes the new value, a new key goes to the end.
\<close>

definition assignProps :: "props \<Rightarrow> props \<Rightarrow> props" where
  "assignProps target src = foldl (\<lambda>acc (k, v). AList.update k v acc) target src"

text \<open>The literals \<^verbatim>\<open>{ ...a }\<close> and \<^verbatim>\<open>{ ...a, ...b }\<close>.\<close>

definition spread1 :: "props \<Rightarrow> props" where
  "spread1 a = assignProps [] a"

definition spread2 :: "props \<Rightarrow> props \<Rightarrow> props" where
  "spread2 a b = assignProps (assignProps [] a) b"

section \<open>The store\<close>

text \<open>
  A function either returns a value or throws one. What the program does that a caller
  can observe besides the state is recorded in the trace: each listener invocation, and
  each \<^verbatim>\<open>console.error\<close> call with its message and the error it reports.
\<close>

datatype 'a completion = Normal 'a | Throw val

datatype event = Invoke ident | ConsoleError string val

text \<open>
  A listener is a function reference (\<open>lid\<close>, its identity in the \<^verbatim>\<open>Set\<close>) with a body.
  The body reads the heap and the current state and acts on everything outside the
  store (\<open>'w\<close>). It may call the store while it runs: \<^verbatim>\<open>subscribe\<close> with a listener, a
  function that \<^verbatim>\<open>subscribe\<close> returned (which unsubscribes the listener of that
  identity), and \<^verbatim>\<open>destroy\<close> (of the store as created under the given key of the
  registry); the calls are listed in the order in which they are made. In the end it
  returns or throws.

  A listener that a body subscribes is part of the listener value. A body may subscribe
  different listeners in different heaps, states and worlds, and each of them may
  subscribe others in turn, but no chain of listeners subscribing listeners goes on for
  ever: as a body is a function that returns, a pass over the listeners is one that
  ends. A listener that deletes and adds itself again in each of its calls, or
  subscribes a new function in each call of the last one, keeps \<^verbatim>\<open>listeners.forEach\<close>
  running for ever in the code; there is no such value here. A body does not call
  \<^verbatim>\<open>setState\<close> either: a write runs to its end before the next one begins.
\<close>

datatype 'l listenerCall = Subscribe 'l | Unsubscribe ident | Destroy nat

datatype 'w listener =
  Listener (lid: ident)
    (body: "heap \<Rightarrow> val \<Rightarrow> 'w \<Rightarrow> 'w \<times> 'w listener listenerCall list \<times> val option")

text \<open>
  The module's variables (\<^verbatim>\<open>storeRegistry\<close>, by its keys, and \<^verbatim>\<open>storeIdCounter\<close>; the key
  \<^verbatim>\<open>store_n\<close> is the number \<open>n\<close>), the variables \<^verbatim>\<open>state\<close> and \<^verbatim>\<open>listeners\<close> of one call of
  \<^verbatim>\<open>createStoreAPI\<close>, the heap with the next unused reference, the world and the trace.
\<close>

record 'w machine =
  heap :: heap
  nextId :: ident
  storeIdCounter :: nat
  storeRegistry :: "nat list"
  state :: val
  listeners :: "'w listener list"
  world :: 'w
  trace :: "event list"

text \<open>
  The argument of \<^verbatim>\<open>setState\<close>: an object (its own properties), or a function of the
  state that returns the patch object's properties or throws.
\<close>

datatype updater = Patch props | UpdaterFn "heap \<Rightarrow> val \<Rightarrow> props completion"

type_synonym 'w writer = "updater \<Rightarrow> 'w machine \<Rightarrow> 'w machine \<times> val completion"

text \<open>An object literal: a new reference, never one in use.\<close>

definition newObject :: "props \<Rightarrow> 'w machine \<Rightarrow> val \<times> 'w machine" where
  "newObject ps m =
     (Ref (nextId m), m\<lparr>heap := (heap m)(nextId m := ps), nextId := Suc (nextId m)\<rparr>)"

subsection \<open>The listener set\<close>

definition setAdd :: "'w listener \<Rightarrow> 'w listener list \<Rightarrow> 'w listener list" where
  "setAdd l ls = (if lid l \<in> set (map lid ls) then ls else ls @ [l])"

definition setDelete :: "'w listener \<Rightarrow> 'w listener list \<Rightarrow> 'w listener list" where
  "setDelete l ls = filter (\<lambda>x. lid x \<noteq> lid l) ls"

text \<open>\<^verbatim>\<open>subscribe\<close>, the function it returns, and \<^verbatim>\<open>destroy\<close>.\<close>

definition subscribe :: "'w listener \<Rightarrow> 'w machine \<Rightarrow> 'w machine" where
  "subscribe l m = m\<lparr>listeners := setAdd l (listeners m)\<rparr>"

definition unsubscribe :: "'w listener \<Rightarrow> 'w machine \<Rightarrow> 'w machine" where
  "unsubscribe l m = m\<lparr>listeners := setDelete l (listeners m)\<rparr>"

definition destroy :: "nat \<Rightarrow> 'w machine \<Rightarrow> 'w machine" where
  "destroy storeId m =
     m\<lparr>listeners := [], storeRegistry := removeAll storeId (storeRegistry m)\<rparr>"

subsection \<open>The fan-out\<close>

text \<open>
  \<^verbatim>\<open>listeners.forEach\<close> visits the \<^verbatim>\<open>Set\<close> as it is while the pass runs: a listener deleted
  before its turn is not visited, and a listener added during the pass is visited at
  the end. \<open>pending\<close> holds the listeners of the set that the pass has still to visit.
  A call that a listener's body makes changes the set and the pending listeners alike.
\<close>

definition deleteId :: "ident \<Rightarrow> 'w listener list \<Rightarrow> 'w listener list" where
  "deleteId i ls = filter (\<lambda>x. lid x \<noteq> i) ls"

fun callFromListener ::
  "'w listener listenerCall \<Rightarrow> 'w listener list \<times> 'w machine \<Rightarrow>
   'w listener list \<times> 'w machine" where
  "callFromListener (Subscribe x) (pending, m) =
     (if lid x \<in> set (map lid (listeners m)) then pending else pending @ [x], subscribe x m)"
| "callFromListener (Unsubscribe i) (pending, m) =
     (deleteId i pending, m\<lparr>listeners := deleteId i (listeners m)\<rparr>)"
| "callFromListener (Destroy storeId) (pending, m) = ([], destroy storeId m)"

fun callsFromListener ::
  "'w listener listenerCall list \<Rightarrow> 'w listener list \<times> 'w machine \<Rightarrow>
   'w listener list \<times> 'w machine" where
  "callsFromListener [] pm = pm"
| "callsFromListener (c # cs) pm = callsFromListener cs (callFromListener c pm)"

text \<open>The callback of \<^verbatim>\<open>listeners.forEach\<close>: the call in its \<^verbatim>\<open>try\<close>, the log in its \<^verbatim>\<open>catch\<close>.\<close>

definition callListener ::
  "'w listener \<Rightarrow> 'w listener list \<times> 'w machine \<Rightarrow> 'w listener list \<times> 'w machine" where
  "callListener l pm =
     (case pm of (pending, m) \<Rightarrow>
        (case body l (heap m) (state m) (world m) of
           (w, calls, result) \<Rightarrow>
             (case callsFromListener calls
                     (pending, m\<lparr>world := w, trace := trace m @ [Invoke (lid l)]\<rparr>) of
                (pending', m') \<Rightarrow>
                  (pending',
                   case result of
                     None \<Rightarrow> m'
                   | Some error \<Rightarrow>
                       m'\<lparr>trace := trace m' @
                          [ConsoleError ''[ServerSync] Error in state listener:'' error]\<rparr>))))"

text \<open>
  The pass ends: every listener that a call adds to the pending ones is subscribed by
  the body of the listener just visited, and so is a part of it.
\<close>

definition subscribedBy :: "('w listener \<times> 'w listener) set" where
  "subscribedBy = {(x, l). \<exists>h s w. Subscribe x \<in> set (fst (snd (body l h s w)))}"

lemma wf_subscribedBy: "wf subscribedBy"
proof (rule wfUNIVI)
  fix P :: "'w listener \<Rightarrow> bool" and l
  assume step: "\<forall>l. (\<forall>x. (x, l) \<in> subscribedBy \<longrightarrow> P x) \<longrightarrow> P l"
  show "P l"
  proof (induction l)
    case (Listener i f)
    have "P x" if "(x, Listener i f) \<in> subscribedBy" for x
    proof -
      from that obtain h s w where "Subscribe x \<in> set (fst (snd (f h s w)))"
        by (auto simp: subscribedBy_def)
      then show ?thesis
        by (intro Listener.IH [of "f h" "f h s" "f h s w" "snd (f h s w)"
              "fst (snd (f h s w))" "Subscribe x" x])
          (auto simp: Basic_BNFs.snds.simps Basic_BNFs.fsts.simps)
    qed
    with step show ?case by blast
  qed
qed

lemma callFromListener_pending:
  "mset (fst (callFromListener c (pending, m)))
     \<subseteq># mset pending + mset (case c of Subscribe x \<Rightarrow> [x] | _ \<Rightarrow> [])"
  by (cases c) (auto simp: deleteId_def multiset_filter_subset)

fun subscribedIn :: "'l listenerCall list \<Rightarrow> 'l list" where
  "subscribedIn [] = []"
| "subscribedIn (Subscribe x # cs) = x # subscribedIn cs"
| "subscribedIn (_ # cs) = subscribedIn cs"

lemma callsFromListener_pending:
  "mset (fst (callsFromListener cs (pending, m))) \<subseteq># mset pending + mset (subscribedIn cs)"
proof (induction cs arbitrary: pending m)
  case Nil
  then show ?case by simp
next
  case (Cons c cs)
  obtain p' m' where step: "callFromListener c (pending, m) = (p', m')"
    by (cases "callFromListener c (pending, m)")
  have 1: "mset p' \<subseteq># mset pending + mset (case c of Subscribe x \<Rightarrow> [x] | _ \<Rightarrow> [])"
    using callFromListener_pending [of c pending m] step by simp
  have 2: "mset (fst (callsFromListener cs (p', m'))) \<subseteq># mset p' + mset (subscribedIn cs)"
    by (rule Cons.IH)
  have 3: "mset (case c of Subscribe x \<Rightarrow> [x] | _ \<Rightarrow> []) + mset (subscribedIn cs)
      = mset (subscribedIn (c # cs))"
    by (cases c) simp_all
  have "mset (fst (callsFromListener cs (p', m')))
      \<subseteq># mset pending + mset (case c of Subscribe x \<Rightarrow> [x] | _ \<Rightarrow> []) + mset (subscribedIn cs)"
    using 1 2 by (meson subset_mset.add_right_mono subset_mset.order_trans)
  with 3 show ?case
    by (simp add: step add.assoc)
qed

lemma callListener_pending:
  "mset (fst (callListener l (pending, m)))
     \<subseteq># mset pending + mset (subscribedIn (fst (snd (body l (heap m) (state m) (world m)))))"
proof -
  obtain w calls result where b: "body l (heap m) (state m) (world m) = (w, calls, result)"
    by (cases "body l (heap m) (state m) (world m)") auto
  show ?thesis
    using callsFromListener_pending
      [of calls pending "m\<lparr>world := w, trace := trace m @ [Invoke (lid l)]\<rparr>"]
    by (auto simp: callListener_def b split: prod.splits)
qed

lemma callListener_decreases:
  "(mset (fst (callListener l (pending, m))), mset (l # pending)) \<in> mult subscribedBy"
proof -
  let ?new = "mset (fst (callListener l (pending, m)))"
  let ?subs = "mset (subscribedIn (fst (snd (body l (heap m) (state m) (world m)))))"
  have sub: "?new \<subseteq># mset pending + ?subs"
    by (rule callListener_pending)
  have below: "(x, l) \<in> subscribedBy" if "x \<in># ?subs" for x
  proof -
    have "Subscribe y \<in> set cs" if "y \<in> set (subscribedIn cs)" for y :: "'a listener" and cs
      using that by (induction cs rule: subscribedIn.induct) auto
    from this [of x] that show ?thesis
      unfolding subscribedBy_def by auto
  qed
  let ?I = "?new \<inter># mset pending"
  have 1: "?new = ?I + (?new - mset pending)"
    by (rule multiset_eqI) (simp add: min_def)
  have 2: "mset (l # pending) = ?I + ({#l#} + (mset pending - ?new))"
    by (rule multiset_eqI) (simp add: min_def)
  have "?new - mset pending \<subseteq># ?subs"
    using sub by (simp add: subset_eq_diff_conv add.commute)
  then have 3: "\<forall>k\<in>set_mset (?new - mset pending).
      \<exists>j\<in>set_mset ({#l#} + (mset pending - ?new)). (k, j) \<in> subscribedBy"
    using below by (auto dest: mset_subset_eqD)
  have "(?I + (?new - mset pending), ?I + ({#l#} + (mset pending - ?new))) \<in> mult subscribedBy"
    by (rule one_step_implies_mult) (use 3 in simp_all)
  with 1 2 show ?thesis by simp
qed

function forEach :: "'w listener list \<Rightarrow> 'w machine \<Rightarrow> 'w machine" where
  "forEach [] m = m"
| "forEach (l # pending) m =
     (case callListener l (pending, m) of (pending', m') \<Rightarrow> forEach pending' m')"
  by pat_completeness auto
termination
proof (relation "inv_image (mult subscribedBy) (\<lambda>(pending, m). mset pending)")
  show "wf (inv_image (mult subscribedBy) (\<lambda>(pending, m). mset pending))"
    by (intro wf_inv_image wf_mult wf_subscribedBy)
next
  fix l :: "'w listener" and pending m x xa y
  assume "(x, xa) = callListener l (pending, m)"
  then have "x = fst (callListener l (pending, m))"
    by (metis fst_conv)
  then show "((x, y), l # pending, m) \<in> inv_image (mult subscribedBy) (\<lambda>(pending, m). mset pending)"
    using callListener_decreases [of l pending m] by simp
qed

subsection \<open>The API object and the options\<close>

text \<open>
  \<^verbatim>\<open>StoreAPI\<close>, \<^verbatim>\<open>Middleware\<close> and \<^verbatim>\<open>StoreOptions\<close> of \<^verbatim>\<open>src/types/index.ts\<close>. The options
  \<^verbatim>\<open>serialize\<close> and \<^verbatim>\<open>deserialize\<close> of \<^verbatim>\<open>ssr\<close> are never read and are left out.
\<close>

record 'w storeAPI =
  api_getState :: "'w machine \<Rightarrow> val"
  api_setState :: "'w writer"
  api_subscribe :: "'w listener \<Rightarrow> 'w machine \<Rightarrow> ('w machine \<Rightarrow> 'w machine) \<times> 'w machine"
  api_getSnapshot :: "'w machine \<Rightarrow> val"
  api_getServerSnapshot :: "'w machine \<Rightarrow> val \<times> 'w machine"
  api_destroy :: "'w machine \<Rightarrow> 'w machine"

type_synonym 'w middleware = "'w storeAPI \<Rightarrow> 'w writer \<Rightarrow> 'w writer"

record ssrOptions =
  ssr_initialState :: "props option"

record 'w storeOptions =
  opt_middleware :: "'w middleware list option"
  opt_devtools :: "bool option"
  opt_name :: "string option"
  opt_ssr :: "ssrOptions option"

text \<open>The optional chain \<^verbatim>\<open>options.ssr?.initialState\<close>; an object, when there, is truthy.\<close>

definition ssrOverride :: "'w storeOptions \<Rightarrow> props option" where
  "ssrOverride options =
     (case opt_ssr options of None \<Rightarrow> None | Some ssr \<Rightarrow> ssr_initialState ssr)"

subsection \<open>The methods of the API object\<close>

definition getState :: "'w machine \<Rightarrow> val" where
  "getState m = state m"

text \<open>
  The patch of a write: what the updater returns when it is a function, the updater
  itself otherwise.
\<close>

definition patchOf :: "updater \<Rightarrow> 'w machine \<Rightarrow> props completion" where
  "patchOf updater m =
     (case updater of
        UpdaterFn f \<Rightarrow> f (heap m) (state m)
      | Patch p \<Rightarrow> Normal p)"

text \<open>
  \<^verbatim>\<open>setState\<close> as \<^verbatim>\<open>createStoreAPI\<close> first defines it (\<^verbatim>\<open>originalSetState\<close>). It has no
  \<^verbatim>\<open>return\<close>: it completes with \<^verbatim>\<open>undefined\<close>, or with what the updater throws.
\<close>

definition setState :: "updater \<Rightarrow> 'w machine \<Rightarrow> 'w machine \<times> val completion" where
  "setState updater m =
     (case patchOf updater m of
        Throw error \<Rightarrow> (m, Throw error)
      | Normal patch \<Rightarrow>
          (case newObject (spread2 (ownProps (heap m) (state m)) patch) m of
             (nextState, m1) \<Rightarrow>
               if \<not> shallowEqual (heap m1) (state m1) nextState
               then (forEach (listeners m1) (m1\<lparr>state := nextState\<rparr>), Normal Undefined)
               else (m1, Normal Undefined)))"

definition getSnapshot :: "'w machine \<Rightarrow> val" where
  "getSnapshot m = state m"

definition getServerSnapshot ::
  "props \<Rightarrow> 'w storeOptions \<Rightarrow> 'w machine \<Rightarrow> val \<times> 'w machine" where
  "getServerSnapshot initialState options m =
     (case ssrOverride options of
        Some override \<Rightarrow> newObject (spread2 initialState override) m
      | None \<Rightarrow> (state m, m))"

subsection \<open>createStoreAPI\<close>

text \<open>\<^verbatim>\<open>Array.prototype.reduceRight\<close> with an initial value: from the last element to the first.\<close>

fun reduceRight :: "('b \<Rightarrow> 'a \<Rightarrow> 'b) \<Rightarrow> 'b \<Rightarrow> 'a list \<Rightarrow> 'b" where
  "reduceRight f acc xs = foldl f acc (rev xs)"

text \<open>\<^verbatim>\<open>Map.prototype.set\<close> on the keys: a new key goes to the end.\<close>

definition registrySet :: "nat \<Rightarrow> nat list \<Rightarrow> nat list" where
  "registrySet k ks = (if k \<in> set ks then ks else ks @ [k])"

text \<open>The object literal \<^verbatim>\<open>api\<close>, with \<^verbatim>\<open>subscribe\<close> returning the function that unsubscribes.\<close>

definition storeMethods :: "props \<Rightarrow> 'w storeOptions \<Rightarrow> nat \<Rightarrow> 'w storeAPI" where
  "storeMethods initialState options storeId =
     \<lparr>api_getState = getState,
      api_setState = setState,
      api_subscribe = (\<lambda>l m. (unsubscribe l, subscribe l m)),
      api_getSnapshot = getSnapshot,
      api_getServerSnapshot = getServerSnapshot initialState options,
      api_destroy = destroy storeId\<rparr>"

text \<open>
  Each middleware is applied to the API object as it is before its \<^verbatim>\<open>setState\<close> is
  replaced by the chain.
\<close>

definition applyMiddleware :: "'w storeAPI \<Rightarrow> 'w middleware list \<Rightarrow> 'w storeAPI" where
  "applyMiddleware api middleware =
     (if length middleware > 0
      then
        let originalSetState = api_setState api;
            middlewareChain = reduceRight (\<lambda>next mw. mw api next) originalSetState middleware
        in api\<lparr>api_setState := middlewareChain\<rparr>
      else api)"

text \<open>
  \<^verbatim>\<open>storeName\<close> is computed and never used; the assignment to \<^verbatim>\<open>window\<close> publishes the
  same registry and is left out.
\<close>

definition createStoreAPI ::
  "props \<Rightarrow> 'w storeOptions \<Rightarrow> 'w machine \<Rightarrow> 'w storeAPI \<times> 'w machine" where
  "createStoreAPI initialState options m0 =
     (let storeId = Suc (storeIdCounter m0);
          m1 = m0\<lparr>storeIdCounter := storeId\<rparr>;
          (st, m2) = newObject (spread1 initialState) m1;
          m3 = m2\<lparr>state := st, listeners := []\<rparr>;
          middleware = (case opt_middleware options of Some mws \<Rightarrow> mws | None \<Rightarrow> []);
          api = applyMiddleware (storeMethods initialState options storeId) middleware;
          m4 = (if opt_devtools options \<noteq> Some False
                then m3\<lparr>storeRegistry := registrySet storeId (storeRegistry m3)\<rparr>
                else m3)
      in (api, m4))"

section \<open>Binding actions\<close>

text \<open>
  An action takes its arguments and returns an updater, or throws. The bound action
  calls it and passes the updater to the store's \<^verbatim>\<open>setState\<close>, in a \<^verbatim>\<open>try\<close>; the
  \<^verbatim>\<open>catch\<close> logs the error under the action's key and throws it again.
\<close>

type_synonym action = "val list \<Rightarrow> updater completion"

definition actionErrorMessage :: "string \<Rightarrow> string" where
  "actionErrorMessage key = ''[ServerSync] Error in action \"'' @ key @ ''\":''"

definition catchAction :: "string \<Rightarrow> val \<Rightarrow> 'w machine \<Rightarrow> 'w machine \<times> val completion" where
  "catchAction key error m =
     (m\<lparr>trace := trace m @ [ConsoleError (actionErrorMessage key) error]\<rparr>, Throw error)"

definition boundAction ::
  "'w storeAPI \<Rightarrow> string \<Rightarrow> action \<Rightarrow> val list \<Rightarrow> 'w machine \<Rightarrow> 'w machine \<times> val completion" where
  "boundAction store key action args m =
     (case action args of
        Throw error \<Rightarrow> catchAction key error m
      | Normal updater \<Rightarrow>
          (case api_setState store updater m of
             (m', Throw error) \<Rightarrow> catchAction key error m'
           | (m', Normal _) \<Rightarrow> (m', Normal Undefined)))"

definition bindActionsToStore ::
  "'w storeAPI \<Rightarrow> (string \<times> action) list \<Rightarrow>
   (string \<times> (val list \<Rightarrow> 'w machine \<Rightarrow> 'w machine \<times> val completion)) list" where
  "bindActionsToStore store actions =
     foldl (\<lambda>boundActions (key, action).
              AList.update key (boundAction store key action) boundActions)
       [] actions"

section \<open>Properties of a run\<close>

text \<open>
  The state of a store is an object that exists (its reference is in use) and holds
  each key once.
\<close>

definition storeInv :: "'w machine \<Rightarrow> bool" where
  "storeInv m =
     (case state m of
        Ref p \<Rightarrow> p < nextId m \<and> distinct (map fst (heap m p))
      | _ \<Rightarrow> False)"

text \<open>
  The candidate has no own property that differs from the current state: each of its
  keys is a key of the current state, with the same value.
\<close>

definition noDifference :: "props \<Rightarrow> props \<Rightarrow> bool" where
  "noDifference current candidate =
     (\<forall>k\<in>set (map fst candidate).
        k \<in> set (map fst current) \<and> map_of current k = map_of candidate k)"

text \<open>The candidate state of a write with the given patch.\<close>

definition candidate :: "'w machine \<Rightarrow> props \<Rightarrow> props" where
  "candidate m patch = spread2 (ownProps (heap m) (state m)) patch"

text \<open>The listeners invoked in a trace, in order, and the events of a run from \<open>m\<close> to \<open>m'\<close>.\<close>

fun invocations :: "event list \<Rightarrow> ident list" where
  "invocations [] = []"
| "invocations (Invoke i # es) = i # invocations es"
| "invocations (ConsoleError _ _ # es) = invocations es"

definition since :: "'w machine \<Rightarrow> 'w machine \<Rightarrow> event list" where
  "since m m' = drop (length (trace m)) (trace m')"



fun fanoutEvents :: "heap \<Rightarrow> val \<Rightarrow> 'w listener list \<Rightarrow> 'w \<Rightarrow> event list" where
  "fanoutEvents h s [] w = []"
| "fanoutEvents h s (l # ls) w =
     Invoke (lid l) #
     (case snd (snd (body l h s w)) of
        None \<Rightarrow> []
      | Some error \<Rightarrow> [ConsoleError ''[ServerSync] Error in state listener:'' error]) @
     fanoutEvents h s ls (fst (body l h s w))"


text \<open>Calls of a store's methods, one after the other.\<close>

datatype 'w storeCall =
  CallSetState updater
| CallSubscribe "'w listener"
| CallUnsubscribe "'w listener"
| CallDestroy

fun perform :: "nat \<Rightarrow> 'w storeCall \<Rightarrow> 'w machine \<Rightarrow> 'w machine" where
  "perform storeId (CallSetState u) m = fst (setState u m)"
| "perform storeId (CallSubscribe l) m = subscribe l m"
| "perform storeId (CallUnsubscribe l) m = unsubscribe l m"
| "perform storeId CallDestroy m = destroy storeId m"

definition performAll :: "nat \<Rightarrow> 'w storeCall list \<Rightarrow> 'w machine \<Rightarrow> 'w machine" where
  "performAll storeId cs m = foldl (\<lambda>m c. perform storeId c m) m cs"


text \<open>Subscribing a list of listeners, first to last.\<close>

definition subscribeAll :: "'w listener list \<Rightarrow> 'w machine \<Rightarrow> 'w machine" where
  "subscribeAll ls m = foldl (\<lambda>m l. subscribe l m) m ls"



text \<open>
  Right-to-left composition as the specification words it: the last middleware wraps
  the raw writer, each earlier one wraps the writer of the one after it.
\<close>

definition composed :: "'w storeAPI \<Rightarrow> 'w middleware list \<Rightarrow> 'w writer \<Rightarrow> 'w writer" where
  "composed api mws raw = foldr (\<lambda>mw next. mw api next) mws raw"

section \<open>The scenarios of the specification\<close>

text \<open>
  The program before any store is created, the options \<^verbatim>\<open>{}\<close>, the store of
  \<^verbatim>\<open>createStoreAPI({ count: 0 })\<close>, the updater \<^verbatim>\<open>s => ({ count: s.count + 1 })\<close> (on a
  count that is a number), and a listener that only counts its calls in the world.
\<close>

definition emptyMachine :: "nat machine" where
  "emptyMachine =
     \<lparr>heap = (\<lambda>_. []), nextId = 0, storeIdCounter = 0, storeRegistry = [],
      state = Undefined, listeners = [], world = 0, trace = []\<rparr>"

definition noOptions :: "nat storeOptions" where
  "noOptions =
     \<lparr>opt_middleware = None, opt_devtools = None, opt_name = None, opt_ssr = None\<rparr>"

definition counterStore :: "nat machine" where
  "counterStore = snd (createStoreAPI [(''count'', Num 0)] noOptions emptyMachine)"

definition increment :: updater where
  "increment =
     UpdaterFn (\<lambda>h s. case getProp h s ''count'' of
                         Num n \<Rightarrow> Normal [(''count'', Num (n + 1))]
                       | _ \<Rightarrow> Normal [])"

definition goodListener :: "ident \<Rightarrow> nat listener" where
  "goodListener i = Listener i (\<lambda>h s w. (Suc w, [], None))"






definition tagging :: "string \<Rightarrow> nat middleware" where
  "tagging tag = (\<lambda>api next updater m.
     next updater (m\<lparr>trace := trace m @ [ConsoleError tag Undefined]\<rparr>))"

definition throwingAction :: action where
  "throwingAction = (\<lambda>args. Throw (Str ''Action error''))"

definition errorAction :: action where
  "errorAction = (\<lambda>args. Normal (UpdaterFn (\<lambda>h s. Throw (Str ''Action error''))))"

text \<open>
  A heap with two objects \<^verbatim>\<open>{ count: 0, user: u }\<close> over the same \<^verbatim>\<open>u\<close> and a third over
  another user object.
\<close>

definition exampleHeap :: heap where
  "exampleHeap =
     (\<lambda>_. [])(1 := [(''count'', Num 0), (''user'', Ref 7)],
               2 := [(''count'', Num 0), (''user'', Ref 7)],
               3 := [(''count'', Num 0), (''user'', Ref 8)])"

section \<open>Lemmas\<close>

subsection \<open>Object spread\<close>

lemma assignProps_Nil [simp]: "assignProps t [] = t"
  by (simp add: assignProps_def)

lemma assignProps_Cons [simp]:
  "assignProps t ((k, v) # s) = assignProps (AList.update k v t) s"
  by (simp add: assignProps_def)

lemma distinct_assignProps:
  "distinct (map fst t) \<Longrightarrow> distinct (map fst (assignProps t s))"
  by (induction s arbitrary: t) (auto simp: distinct_update)

lemma keys_assignProps:
  "fst ` set (assignProps t s) = fst ` set t \<union> fst ` set s"
proof (induction s arbitrary: t)
  case Nil
  then show ?case by simp
next
  case (Cons x s)
  obtain k v where x: "x = (k, v)" by (cases x)
  have "fst ` set (AList.update k v t) = {k} \<union> fst ` set t"
    by (rule dom_update)
  with Cons show ?case unfolding x by auto
qed

lemma map_of_assignProps:
  "distinct (map fst s) \<Longrightarrow>
   map_of (assignProps t s) k = (case map_of s k of Some v \<Rightarrow> Some v | None \<Rightarrow> map_of t k)"
proof (induction s arbitrary: t)
  case Nil
  then show ?case by simp
next
  case (Cons x s)
  obtain k' v' where x: "x = (k', v')" by (cases x)
  from Cons.prems have k': "k' \<notin> fst ` set s" and d: "distinct (map fst s)"
    unfolding x by auto
  from k' have none: "map_of s k' = None"
    by (simp add: map_of_eq_None_iff)
  show ?case
    unfolding x using none
    by (simp add: Cons.IH [OF d] update_conv' split: option.splits)
qed

lemma update_append_new:
  "k \<notin> fst ` set t \<Longrightarrow> AList.update k v t = t @ [(k, v)]"
  by (induction t) auto

lemma assignProps_append:
  "distinct (map fst (t @ s)) \<Longrightarrow> assignProps t s = t @ s"
proof (induction s arbitrary: t)
  case Nil
  then show ?case by simp
next
  case (Cons x s)
  obtain k v where x: "x = (k, v)" by (cases x)
  from Cons.prems have k: "k \<notin> fst ` set t" unfolding x by auto
  have "distinct (map fst ((t @ [(k, v)]) @ s))"
    using Cons.prems unfolding x by simp
  from Cons.IH [OF this] show ?case
    unfolding x by (simp add: update_append_new [OF k])
qed

lemma spread1_distinct: "distinct (map fst a) \<Longrightarrow> spread1 a = a"
  using assignProps_append [of "[]" a] by (simp add: spread1_def)

lemma distinct_spread1: "distinct (map fst (spread1 a))"
  by (simp add: spread1_def distinct_assignProps)

lemma spread2_distinct_base:
  "distinct (map fst a) \<Longrightarrow> spread2 a b = assignProps a b"
  using spread1_distinct [of a] by (simp add: spread2_def spread1_def)

lemma distinct_spread2: "distinct (map fst (spread2 a b))"
  by (simp add: spread2_def distinct_assignProps)

lemma keys_spread2:
  "fst ` set (spread2 a b) = fst ` set a \<union> fst ` set b"
  by (simp add: spread2_def keys_assignProps)

lemma length_update_ge: "length t \<le> length (AList.update k v t)"
  by (induction t) auto

lemma length_assignProps_ge: "length t \<le> length (assignProps t s)"
proof (induction s arbitrary: t)
  case Nil
  then show ?case by simp
next
  case (Cons x s)
  obtain k v where x: "x = (k, v)" by (cases x)
  show ?case unfolding x
    using Cons.IH [of "AList.update k v t"] length_update_ge [of t k v] by simp
qed

lemma assignProps_same:
  "\<forall>(k, v)\<in>set s. map_of t k = Some v \<Longrightarrow> assignProps t s = t"
  by (induction s arbitrary: t) (auto simp: update_triv)

subsection \<open>shallowEqual\<close>

lemma compareKeys_iff:
  "compareKeys h a b ks \<longleftrightarrow>
     (\<forall>k\<in>set ks. hasOwnProperty h b k \<and> objectIs (getProp h a k) (getProp h b k))"
  by (induction ks) auto

lemma isComposite_typeof: "typeof v = ''object'' \<and> v \<noteq> Null \<longleftrightarrow> isComposite v"
  by (cases v) (simp_all add: isComposite_def)

lemma getProp_eq_iff:
  assumes "k \<in> fst ` set (h p)" "k \<in> fst ` set (h q)"
  shows "getProp h (Ref p) k = getProp h (Ref q) k \<longleftrightarrow> map_of (h p) k = map_of (h q) k"
proof -
  from assms obtain v w where "map_of (h p) k = Some v" "map_of (h q) k = Some w"
    by (meson domD domI map_of_eq_None_iff option.exhaust)
  then show ?thesis by (simp add: getProp_def)
qed

lemma shallowEqual_refs:
  "p \<noteq> q \<Longrightarrow>
   shallowEqual h (Ref p) (Ref q) \<longleftrightarrow>
     length (h p) = length (h q) \<and>
     (\<forall>k\<in>fst ` set (h p).
        k \<in> fst ` set (h q) \<and> getProp h (Ref p) k = getProp h (Ref q) k)"
  by (simp add: shallowEqual_def objectIs_def keys_def compareKeys_iff hasOwnProperty_def)

lemma shallowEqual_noDifference:
  assumes pq: "p \<noteq> q"
    and dp: "distinct (map fst (h p))"
    and dq: "distinct (map fst (h q))"
    and sub: "fst ` set (h p) \<subseteq> fst ` set (h q)"
  shows "shallowEqual h (Ref p) (Ref q) \<longleftrightarrow> noDifference (h p) (h q)"
proof -
  have lp: "length (h p) = card (fst ` set (h p))"
    using distinct_card [OF dp] by simp
  have lq: "length (h q) = card (fst ` set (h q))"
    using distinct_card [OF dq] by simp
  have keys_eq: "length (h p) = length (h q) \<longleftrightarrow> fst ` set (h p) = fst ` set (h q)"
  proof
    assume "length (h p) = length (h q)"
    then have "card (fst ` set (h p)) = card (fst ` set (h q))"
      using lp lq by simp
    with sub show "fst ` set (h p) = fst ` set (h q)"
      by (simp add: card_subset_eq)
  next
    assume "fst ` set (h p) = fst ` set (h q)"
    then show "length (h p) = length (h q)"
      using lp lq by simp
  qed
  show ?thesis
  proof
    assume "shallowEqual h (Ref p) (Ref q)"
    then have len: "length (h p) = length (h q)"
      and vals: "\<forall>k\<in>fst ` set (h p). getProp h (Ref p) k = getProp h (Ref q) k"
      using shallowEqual_refs [OF pq, of h] by auto
    from len keys_eq have ks: "fst ` set (h p) = fst ` set (h q)" by simp
    show "noDifference (h p) (h q)"
      unfolding noDifference_def
    proof
      fix k assume "k \<in> set (map fst (h q))"
      then have kq: "k \<in> fst ` set (h q)" by simp
      with ks have kp: "k \<in> fst ` set (h p)" by simp
      with vals have "getProp h (Ref p) k = getProp h (Ref q) k" by blast
      with getProp_eq_iff [OF kp kq] kp
      show "k \<in> set (map fst (h p)) \<and> map_of (h p) k = map_of (h q) k" by simp
    qed
  next
    assume nd: "noDifference (h p) (h q)"
    then have "fst ` set (h q) \<subseteq> fst ` set (h p)"
      unfolding noDifference_def by auto
    with sub have ks: "fst ` set (h p) = fst ` set (h q)" by blast
    with keys_eq have len: "length (h p) = length (h q)" by simp
    have "\<forall>k\<in>fst ` set (h p).
        k \<in> fst ` set (h q) \<and> getProp h (Ref p) k = getProp h (Ref q) k"
    proof
      fix k assume kp: "k \<in> fst ` set (h p)"
      with ks have kq: "k \<in> fst ` set (h q)" by simp
      with nd have "map_of (h p) k = map_of (h q) k"
        unfolding noDifference_def by auto
      with getProp_eq_iff [OF kp kq] kq
      show "k \<in> fst ` set (h q) \<and> getProp h (Ref p) k = getProp h (Ref q) k" by simp
    qed
    with len show "shallowEqual h (Ref p) (Ref q)"
      using shallowEqual_refs [OF pq, of h] by simp
  qed
qed

subsection \<open>The invariant and the guard of setState\<close>

lemma storeInvE:
  assumes "storeInv m"
  obtains p where "state m = Ref p" "p < nextId m" "distinct (map fst (heap m p))"
  using assms by (auto simp: storeInv_def split: val.splits)

lemma candidate_of_inv:
  assumes "state m = Ref p" "distinct (map fst (heap m p))"
  shows "candidate m patch = assignProps (heap m p) patch"
  using assms by (simp add: candidate_def spread2_distinct_base)

lemma guard_iff:
  assumes inv: "storeInv m"
  shows "shallowEqual ((heap m)(nextId m := candidate m patch)) (state m) (Ref (nextId m))
         \<longleftrightarrow> noDifference (ownProps (heap m) (state m)) (candidate m patch)"
proof -
  from inv obtain p where p: "state m = Ref p" "p < nextId m" "distinct (map fst (heap m p))"
    by (rule storeInvE)
  let ?h = "(heap m)(nextId m := candidate m patch)"
  have ne: "p \<noteq> nextId m" using p(2) by simp
  have hp: "?h p = heap m p" using ne by simp
  have hq: "?h (nextId m) = candidate m patch" by simp
  have dq: "distinct (map fst (candidate m patch))"
    by (simp add: candidate_def distinct_spread2)
  have sub: "fst ` set (heap m p) \<subseteq> fst ` set (candidate m patch)"
    using p(1) by (simp add: candidate_def keys_spread2)
  have "shallowEqual ?h (Ref p) (Ref (nextId m)) \<longleftrightarrow> noDifference (?h p) (?h (nextId m))"
    by (rule shallowEqual_noDifference [OF ne]) (simp_all only: hp hq p(3) dq sub)
  then show ?thesis
    using p(1) by (simp only: hp hq ownProps.simps)
qed

subsection \<open>The fan-out\<close>

lemma invocations_append [simp]:
  "invocations (xs @ ys) = invocations xs @ invocations ys"
  by (induction xs rule: invocations.induct) simp_all

lemma subscribe_frame [simp]:
  "heap (subscribe l m) = heap m"
  "nextId (subscribe l m) = nextId m"
  "state (subscribe l m) = state m"
  "trace (subscribe l m) = trace m"
  "world (subscribe l m) = world m"
  by (simp_all add: subscribe_def)

lemma unsubscribe_frame [simp]:
  "heap (unsubscribe l m) = heap m"
  "nextId (unsubscribe l m) = nextId m"
  "state (unsubscribe l m) = state m"
  "trace (unsubscribe l m) = trace m"
  "world (unsubscribe l m) = world m"
  by (simp_all add: unsubscribe_def)

lemma destroy_frame [simp]:
  "heap (destroy storeId m) = heap m"
  "nextId (destroy storeId m) = nextId m"
  "state (destroy storeId m) = state m"
  "trace (destroy storeId m) = trace m"
  "world (destroy storeId m) = world m"
  "storeIdCounter (destroy storeId m) = storeIdCounter m"
  "listeners (destroy storeId m) = []"
  by (simp_all add: destroy_def)

lemma callFromListener_frame [simp]:
  "heap (snd (callFromListener c pm)) = heap (snd pm)"
  "nextId (snd (callFromListener c pm)) = nextId (snd pm)"
  "state (snd (callFromListener c pm)) = state (snd pm)"
  "storeIdCounter (snd (callFromListener c pm)) = storeIdCounter (snd pm)"
  "world (snd (callFromListener c pm)) = world (snd pm)"
  "trace (snd (callFromListener c pm)) = trace (snd pm)"
  by (cases c; cases pm; simp add: subscribe_def)+

lemma callsFromListener_frame [simp]:
  "heap (snd (callsFromListener cs pm)) = heap (snd pm)"
  "nextId (snd (callsFromListener cs pm)) = nextId (snd pm)"
  "state (snd (callsFromListener cs pm)) = state (snd pm)"
  "storeIdCounter (snd (callsFromListener cs pm)) = storeIdCounter (snd pm)"
  "world (snd (callsFromListener cs pm)) = world (snd pm)"
  "trace (snd (callsFromListener cs pm)) = trace (snd pm)"
  by (induction cs arbitrary: pm) simp_all

lemma callListener_eq:
  "callListener l (pending, m) =
     (fst (callsFromListener (fst (snd (body l (heap m) (state m) (world m))))
             (pending, m\<lparr>world := fst (body l (heap m) (state m) (world m)),
                          trace := trace m @ [Invoke (lid l)]\<rparr>)),
      snd (callsFromListener (fst (snd (body l (heap m) (state m) (world m))))
             (pending, m\<lparr>world := fst (body l (heap m) (state m) (world m)),
                          trace := trace m @ [Invoke (lid l)]\<rparr>))
      \<lparr>trace := trace m @ fanoutEvents (heap m) (state m) [l] (world m)\<rparr>)"
proof -
  obtain w calls result where b: "body l (heap m) (state m) (world m) = (w, calls, result)"
    by (cases "body l (heap m) (state m) (world m)") auto
  let ?m0 = "m\<lparr>world := w, trace := trace m @ [Invoke (lid l)]\<rparr>"
  obtain p' m' where c: "callsFromListener calls (pending, ?m0) = (p', m')"
    by (cases "callsFromListener calls (pending, ?m0)")
  have tr: "trace m' = trace m @ [Invoke (lid l)]"
    using callsFromListener_frame(6) [of calls "(pending, ?m0)"] c by simp
  have "m'\<lparr>trace := trace m'\<rparr> = m'" by simp
  then have same: "m'\<lparr>trace := trace m @ [Invoke (lid l)]\<rparr> = m'"
    by (simp only: tr)
  show ?thesis
    by (cases result) (simp_all add: callListener_def b c tr same)
qed

lemma callListener_frame [simp]:
  "heap (snd (callListener l (pending, m))) = heap m"
  "nextId (snd (callListener l (pending, m))) = nextId m"
  "state (snd (callListener l (pending, m))) = state m"
  "storeIdCounter (snd (callListener l (pending, m))) = storeIdCounter m"
  "world (snd (callListener l (pending, m))) = fst (body l (heap m) (state m) (world m))"
  "trace (snd (callListener l (pending, m))) =
     trace m @ fanoutEvents (heap m) (state m) [l] (world m)"
  by (simp_all add: callListener_eq)

lemma invocations_fanoutEvents [simp]: "invocations (fanoutEvents h s ls w) = map lid ls"
  by (induction ls arbitrary: w) (simp_all split: option.splits)

lemma forEach_frame [simp]:
  "heap (forEach pending m) = heap m"
  "nextId (forEach pending m) = nextId m"
  "state (forEach pending m) = state m"
  "storeIdCounter (forEach pending m) = storeIdCounter m"
proof (induction pending m rule: forEach.induct)
  case (1 m)
  {
    case 1 show ?case by simp
  next
    case 2 show ?case by simp
  next
    case 3 show ?case by simp
  next
    case 4 show ?case by simp
  }
next
  case (2 l pending m)
  obtain p' m' where step: "callListener l (pending, m) = (p', m')"
    by (cases "callListener l (pending, m)")
  have fr: "heap m' = heap m" "nextId m' = nextId m" "state m' = state m"
    "storeIdCounter m' = storeIdCounter m"
    using callListener_frame [of l pending m] step by simp_all
  {
    case 1 show ?case using "2.IH"(1) [OF step [symmetric]] fr step by simp
  next
    case 2 show ?case using "2.IH"(2) [OF step [symmetric]] fr step by simp
  next
    case 3 show ?case using "2.IH"(3) [OF step [symmetric]] fr step by simp
  next
    case 4 show ?case using "2.IH"(4) [OF step [symmetric]] fr step by simp
  }
qed



lemma since_append: "trace m' = trace m @ evs \<Longrightarrow> since m m' = evs"
  by (simp add: since_def)







subsection \<open>The two outcomes of a write\<close>

lemma setState_throw:
  "patchOf updater m = Throw error \<Longrightarrow> setState updater m = (m, Throw error)"
  by (simp add: setState_def)

lemma setState_noop:
  assumes "storeInv m" "patchOf updater m = Normal patch"
    "noDifference (ownProps (heap m) (state m)) (candidate m patch)"
  shows "setState updater m =
    (m\<lparr>heap := (heap m)(nextId m := candidate m patch), nextId := Suc (nextId m)\<rparr>,
     Normal Undefined)"
  using assms guard_iff [OF assms(1), of patch]
  by (simp add: setState_def newObject_def candidate_def)

lemma setState_change:
  assumes "storeInv m" "patchOf updater m = Normal patch"
    "\<not> noDifference (ownProps (heap m) (state m)) (candidate m patch)"
  shows "setState updater m =
    (forEach (listeners m)
       (m\<lparr>heap := (heap m)(nextId m := candidate m patch), nextId := Suc (nextId m),
          state := Ref (nextId m)\<rparr>),
     Normal Undefined)"
  using assms guard_iff [OF assms(1), of patch]
  by (simp add: setState_def newObject_def candidate_def)

lemma storeInv_setState: "storeInv m \<Longrightarrow> storeInv (fst (setState updater m))"
proof -
  assume inv: "storeInv m"
  then obtain p where p: "state m = Ref p" "p < nextId m" "distinct (map fst (heap m p))"
    by (rule storeInvE)
  show ?thesis
  proof (cases "patchOf updater m")
    case (Throw e)
    with inv show ?thesis by (simp add: setState_throw)
  next
    case (Normal patch)
    have dq: "distinct (map fst (candidate m patch))"
      by (simp add: candidate_def distinct_spread2)
    show ?thesis
    proof (cases "noDifference (ownProps (heap m) (state m)) (candidate m patch)")
      case True
      from setState_noop [OF inv Normal True] p show ?thesis
        by (simp add: storeInv_def)
    next
      case False
      from setState_change [OF inv Normal False] dq show ?thesis
        by (simp add: storeInv_def)
    qed
  qed
qed

lemma storeInv_createStoreAPI: "storeInv (snd (createStoreAPI initialState options m))"
  by (simp add: createStoreAPI_def newObject_def storeInv_def Let_def distinct_spread1)

lemma listeners_createStoreAPI: "listeners (snd (createStoreAPI initialState options m)) = []"
  by (simp add: createStoreAPI_def newObject_def Let_def)

lemma counterStore_eq:
  "counterStore =
     \<lparr>heap = (\<lambda>_. [])(0 := [(''count'', Num 0)]), nextId = 1, storeIdCounter = 1,
      storeRegistry = [1], state = Ref 0, listeners = [], world = 0, trace = []\<rparr>"
  by (simp add: counterStore_def createStoreAPI_def newObject_def Let_def emptyMachine_def
      noOptions_def spread1_def registrySet_def)

subsection \<open>Writes\<close>

text \<open>
  A key that the current state lacks is a difference whatever its value, also when the
  value is \<^verbatim>\<open>undefined\<close>, which reading the absent property gives as well: the key counts
  of \<^verbatim>\<open>shallowEqual\<close> differ.
\<close>

lemma new_key_is_a_difference:
  assumes "(k, v) \<in> set patch" and "k \<notin> fst ` set current"
  shows "\<not> noDifference current (spread2 current patch)"
proof -
  from assms(1) have "k \<in> fst ` set (spread2 current patch)"
    by (force simp: keys_spread2)
  with assms(2) show ?thesis
    by (auto simp: noDifference_def)
qed

lemma noDifference_same:
  assumes nd: "noDifference s (assignProps s p)" and dp: "distinct (map fst p)"
  shows "assignProps s p = s"
proof (rule assignProps_same, clarify)
  fix k v assume kv: "(k, v) \<in> set p"
  with dp have pk: "map_of p k = Some v" by simp
  then have "map_of (assignProps s p) k = Some v"
    by (simp add: map_of_assignProps [OF dp])
  moreover have "k \<in> fst ` set (assignProps s p)"
    using kv by (force simp: keys_assignProps)
  ultimately show "map_of s k = Some v"
    using nd unfolding noDifference_def by auto
qed

lemma state_after_setState:
  assumes inv: "storeInv m" and patch: "patchOf updater m = Normal patch"
    and dp: "distinct (map fst patch)"
  shows "ownProps (heap (fst (setState updater m))) (state (fst (setState updater m)))
         = candidate m patch"
proof -
  from inv obtain p where p: "state m = Ref p" "p < nextId m" "distinct (map fst (heap m p))"
    by (rule storeInvE)
  have cand: "candidate m patch = assignProps (heap m p) patch"
    using p by (simp add: candidate_of_inv)
  show ?thesis
  proof (cases "noDifference (ownProps (heap m) (state m)) (candidate m patch)")
    case True
    then have "assignProps (heap m p) patch = heap m p"
      using p(1) cand noDifference_same [OF _ dp, of "heap m p"] by simp
    with setState_noop [OF inv patch True] p cand show ?thesis by simp
  next
    case False
    from setState_change [OF inv patch False] show ?thesis by simp
  qed
qed

lemma counterStore_inv: "storeInv counterStore"
  by (simp add: counterStore_def storeInv_createStoreAPI)

subsection \<open>Writes that change nothing\<close>

lemma storeInv_subscribe [simp]: "storeInv (subscribe l m) = storeInv m"
  by (simp add: storeInv_def subscribe_def split: val.splits)

lemma storeInv_unsubscribe [simp]: "storeInv (unsubscribe l m) = storeInv m"
  by (simp add: storeInv_def unsubscribe_def split: val.splits)

lemma storeInv_destroy [simp]: "storeInv (destroy storeId m) = storeInv m"
  by (simp add: storeInv_def destroy_def split: val.splits)

lemma watched_noDifference:
  "noDifference (ownProps (heap (subscribe (goodListener 1) counterStore))
       (state (subscribe (goodListener 1) counterStore)))
     (candidate (subscribe (goodListener 1) counterStore) [(''count'', Num 0)])"
  by (simp add: noDifference_def candidate_def subscribe_def counterStore_eq spread2_def)

subsection \<open>Notification\<close>


lemma subscribeAll_frame [simp]:
  "heap (subscribeAll ls m) = heap m"
  "nextId (subscribeAll ls m) = nextId m"
  "state (subscribeAll ls m) = state m"
  "trace (subscribeAll ls m) = trace m"
  "world (subscribeAll ls m) = world m"
  unfolding subscribeAll_def
  by (induction ls arbitrary: m) (simp_all add: subscribe_def)


lemma storeInv_subscribeAll [simp]: "storeInv (subscribeAll ls m) = storeInv m"
  by (simp add: storeInv_def split: val.splits)




lemma counterStore_changes:
  "\<not> noDifference (ownProps (heap counterStore) (state counterStore))
       (candidate counterStore [(''count'', Num 1)])"
  by (simp add: noDifference_def candidate_def counterStore_eq spread2_def)






subsection \<open>The server snapshot\<close>

lemma api_of_createStoreAPI:
  "fst (createStoreAPI initialState options m) =
     applyMiddleware (storeMethods initialState options (Suc (storeIdCounter m)))
       (case opt_middleware options of Some mws \<Rightarrow> mws | None \<Rightarrow> [])"
  by (simp add: createStoreAPI_def Let_def split: prod.splits)

lemma applyMiddleware_other_methods [simp]:
  "api_getState (applyMiddleware api mws) = api_getState api"
  "api_getSnapshot (applyMiddleware api mws) = api_getSnapshot api"
  "api_getServerSnapshot (applyMiddleware api mws) = api_getServerSnapshot api"
  "api_destroy (applyMiddleware api mws) = api_destroy api"
  "api_subscribe (applyMiddleware api mws) = api_subscribe api"
  by (simp_all add: applyMiddleware_def Let_def)


lemma setState_noOptions:
  "api_setState (fst (createStoreAPI initialState noOptions m)) = setState"
  by (simp add: api_of_createStoreAPI noOptions_def applyMiddleware_def storeMethods_def)




subsection \<open>The middleware chain\<close>

lemma reduceRight_composed:
  "reduceRight (\<lambda>next mw. mw api next) raw mws = composed api mws raw"
  by (simp add: composed_def foldr_conv_foldl)

lemma applyMiddleware_setState:
  "api_setState (applyMiddleware api mws) = composed api mws (api_setState api)"
  by (cases mws) (simp_all add: applyMiddleware_def Let_def composed_def foldr_conv_foldl)

subsection \<open>Bound actions\<close>

lemma map_of_bound:
  "distinct (map fst xs) \<Longrightarrow>
   map_of (foldl (\<lambda>acc (k, v). AList.update k (f k v) acc) acc xs) key =
     (case map_of xs key of Some v \<Rightarrow> Some (f key v) | None \<Rightarrow> map_of acc key)"
proof (induction xs arbitrary: acc)
  case Nil
  then show ?case by simp
next
  case (Cons x xs)
  obtain k v where x: "x = (k, v)" by (cases x)
  from Cons.prems have k: "k \<notin> fst ` set xs" and d: "distinct (map fst xs)"
    unfolding x by auto
  from k have none: "map_of xs k = None"
    by (simp add: map_of_eq_None_iff)
  show ?case
    unfolding x using none
    by (simp add: Cons.IH [OF d] update_conv' split: option.splits)
qed

lemma bindActionsToStore_lookup:
  assumes "distinct (map fst actions)" "map_of actions key = Some action"
  shows "map_of (bindActionsToStore store actions) key = Some (boundAction store key action)"
  using map_of_bound [OF assms(1), of "boundAction store" "[]" key] assms(2)
  by (simp add: bindActionsToStore_def)

subsection \<open>Destroy\<close>

text \<open>
  A set of listeners that holds, with a listener, those its body subscribes: what is in
  it stays in it through a pass, and only its listeners are invoked.
\<close>

lemma subscribedIn_Subscribe: "x \<in> set (subscribedIn cs) \<longleftrightarrow> Subscribe x \<in> set cs"
  by (induction cs rule: subscribedIn.induct) auto











lemma storeInv_performAll:
  "storeInv m \<Longrightarrow> storeInv (performAll storeId cs m)"
  unfolding performAll_def
proof (induction cs arbitrary: m)
  case Nil
  then show ?case by simp
next
  case (Cons c cs)
  have "storeInv (perform storeId c m)"
    using Cons.prems by (cases c) (simp_all add: storeInv_setState)
  from Cons.IH [OF this] show ?case by simp
qed


section \<open>The claims\<close>

text \<open>
  Claim C1, as amended. When the updater yields a patch and the candidate
  \<^verbatim>\<open>{ ...state, ...patch }\<close> has no own property that differs from the current state,
  the write is a no-op: \<^verbatim>\<open>setState\<close> completes with \<^verbatim>\<open>undefined\<close> (it has no boolean
  result), the state is the same object with the same properties, the listener set is
  unchanged and no listener is invoked: the trace and the world are as before.
\<close>

theorem noop_write:
  assumes inv: "storeInv m" and patch: "patchOf updater m = Normal patch"
    and same: "noDifference (ownProps (heap m) (state m)) (candidate m patch)"
  shows "snd (setState updater m) = Normal Undefined
         \<and> getState (fst (setState updater m)) = getState m
         \<and> ownProps (heap (fst (setState updater m))) (getState (fst (setState updater m)))
             = ownProps (heap m) (getState m)
         \<and> listeners (fst (setState updater m)) = listeners m
         \<and> invocations (since m (fst (setState updater m))) = []
         \<and> trace (fst (setState updater m)) = trace m
         \<and> world (fst (setState updater m)) = world m"
proof -
  from inv obtain p where p: "state m = Ref p" "p < nextId m"
    by (rule storeInvE)
  from setState_noop [OF inv patch same] p show ?thesis
    by (simp add: getState_def since_def)
qed

text \<open>
  The scenario of the specification: a store holding \<^verbatim>\<open>{ count: 0 }\<close> with one listener;
  \<^verbatim>\<open>setState({ count: 0 })\<close> invokes nobody.
\<close>

theorem noop_write_witness:
  "storeInv (subscribe (goodListener 1) counterStore)
   \<and> noDifference (ownProps (heap (subscribe (goodListener 1) counterStore))
         (state (subscribe (goodListener 1) counterStore)))
       (candidate (subscribe (goodListener 1) counterStore) [(''count'', Num 0)])
   \<and> map lid (listeners (subscribe (goodListener 1) counterStore)) = [1]
   \<and> snd (setState (Patch [(''count'', Num 0)]) (subscribe (goodListener 1) counterStore))
       = Normal Undefined
   \<and> invocations (since (subscribe (goodListener 1) counterStore)
        (fst (setState (Patch [(''count'', Num 0)]) (subscribe (goodListener 1) counterStore))))
       = []"
proof -
  let ?m = "subscribe (goodListener 1) counterStore"
  have inv: "storeInv ?m" by (simp add: counterStore_inv)
  have patch: "patchOf (Patch [(''count'', Num 0)]) ?m = Normal [(''count'', Num 0)]"
    by (simp add: patchOf_def)
  have ls: "map lid (listeners ?m) = [1]"
    by (simp add: subscribe_def setAdd_def counterStore_eq goodListener_def)
  from noop_write [OF inv patch watched_noDifference] inv watched_noDifference ls
  show ?thesis by simp
qed

text \<open>
  The write that changes nothing does not return \<^verbatim>\<open>false\<close>: on the store holding
  \<^verbatim>\<open>{ count: 0 }\<close>, \<^verbatim>\<open>setState({ count: 0 })\<close> completes with \<^verbatim>\<open>undefined\<close>.
\<close>

theorem noop_write_returns_false_counterexample:
  "storeInv counterStore
   \<and> noDifference (ownProps (heap counterStore) (state counterStore))
       (candidate counterStore [(''count'', Num 0)])
   \<and> snd (setState (Patch [(''count'', Num 0)]) counterStore) = Normal Undefined
   \<and> snd (setState (Patch [(''count'', Num 0)]) counterStore) \<noteq> Normal (Bool False)"
proof -
  have nd: "noDifference (ownProps (heap counterStore) (state counterStore))
       (candidate counterStore [(''count'', Num 0)])"
    by (simp add: noDifference_def candidate_def counterStore_eq spread2_def)
  have patch: "patchOf (Patch [(''count'', Num 0)]) counterStore = Normal [(''count'', Num 0)]"
    by (simp add: patchOf_def)
  have "snd (setState (Patch [(''count'', Num 0)]) counterStore) = Normal Undefined"
    using setState_noop [OF counterStore_inv patch nd] by simp
  with nd counterStore_inv show ?thesis by simp
qed

text \<open>
  Claim C2. When the updater yields a patch (the value the updater function returns on
  the current state, or the updater itself when it is an object), the state after
  \<^verbatim>\<open>setState\<close> holds the properties of the spread \<^verbatim>\<open>{ ...state, ...patch }\<close>: every
  property of the patch has the patch's value, and every other key is an own key as it
  was before, with the value it had. For \<^verbatim>\<open>createStoreAPI({ count: 0 })\<close> and the updater
  \<^verbatim>\<open>s => ({ count: s.count + 1 })\<close> the count is 1 afterwards.
\<close>

theorem setState_installs_merge:
  assumes inv: "storeInv m" and patch: "patchOf updater m = Normal patch"
    and dp: "distinct (map fst patch)"
  shows "ownProps (heap (fst (setState updater m))) (getState (fst (setState updater m)))
           = spread2 (ownProps (heap m) (getState m)) patch
         \<and> (\<forall>(k, v)\<in>set patch.
               getProp (heap (fst (setState updater m))) (getState (fst (setState updater m))) k = v)
         \<and> (\<forall>k. k \<notin> fst ` set patch \<longrightarrow>
               getProp (heap (fst (setState updater m))) (getState (fst (setState updater m))) k
                 = getProp (heap m) (getState m) k
               \<and> hasOwnProperty (heap (fst (setState updater m))) (getState (fst (setState updater m))) k
                 = hasOwnProperty (heap m) (getState m) k)"
proof -
  let ?m' = "fst (setState updater m)"
  from inv obtain p where p: "state m = Ref p" "p < nextId m" "distinct (map fst (heap m p))"
    by (rule storeInvE)
  from storeInv_setState [OF inv, of updater]
  obtain q where q: "state ?m' = Ref q" by (rule storeInvE)
  have props: "heap ?m' q = assignProps (heap m p) patch"
    using state_after_setState [OF inv patch dp] q p by (simp add: candidate_of_inv)
  have 1: "ownProps (heap ?m') (getState ?m') = spread2 (ownProps (heap m) (getState m)) patch"
    using state_after_setState [OF inv patch dp] by (simp add: getState_def candidate_def)
  have 2: "\<forall>(k, v)\<in>set patch. getProp (heap ?m') (getState ?m') k = v"
    using dp by (auto simp: getState_def getProp_def q props map_of_assignProps)
  have 3: "getProp (heap ?m') (getState ?m') k = getProp (heap m) (getState m) k
      \<and> hasOwnProperty (heap ?m') (getState ?m') k = hasOwnProperty (heap m) (getState m) k"
    if "k \<notin> fst ` set patch" for k
  proof -
    from that have "map_of patch k = None" by (simp add: map_of_eq_None_iff)
    then have "map_of (heap ?m' q) k = map_of (heap m p) k"
      by (simp add: props map_of_assignProps [OF dp])
    moreover have "k \<in> fst ` set (heap ?m' q) \<longleftrightarrow> k \<in> fst ` set (heap m p)"
      using that by (auto simp: props keys_assignProps)
    ultimately show ?thesis
      by (simp add: getState_def getProp_def hasOwnProperty_def keys_def p q)
  qed
  from 1 2 3 show ?thesis by blast
qed

text \<open>
  The scenario of the specification: from \<^verbatim>\<open>{ count: 0 }\<close>, the updater
  \<^verbatim>\<open>s => ({ count: s.count + 1 })\<close> yields the patch \<^verbatim>\<open>{ count: 1 }\<close> and the count is 1.
\<close>

theorem setState_installs_merge_witness:
  "storeInv counterStore
   \<and> patchOf increment counterStore = Normal [(''count'', Num 1)]
   \<and> getProp (heap (fst (setState increment counterStore)))
        (getState (fst (setState increment counterStore))) ''count'' = Num 1"
proof -
  have p: "patchOf increment counterStore = Normal [(''count'', Num 1)]"
    by (simp add: patchOf_def increment_def counterStore_eq getProp_def)
  from setState_installs_merge [OF counterStore_inv p] counterStore_inv p
  show ?thesis by simp
qed








text \<open>
  Claim C6. The \<^verbatim>\<open>setState\<close> of a store created with a middleware list is the
  right-to-left composition of the list over the raw \<^verbatim>\<open>setState\<close>: with no middleware it
  is the raw writer; the last middleware of the list is applied to the raw writer; the
  first middleware of the list is applied to the writer composed from the rest, and what
  it returns is the store's \<^verbatim>\<open>setState\<close>. Every middleware is applied to the API object.
\<close>

theorem middleware_composed_right_to_left:
  "api_setState (fst (createStoreAPI initialState options m)) =
     composed (storeMethods initialState options (Suc (storeIdCounter m)))
       (case opt_middleware options of Some mws \<Rightarrow> mws | None \<Rightarrow> []) setState
   \<and> reduceRight (\<lambda>next mw. mw api next) raw [] = raw
   \<and> reduceRight (\<lambda>next mw. mw api next) raw (mws @ [lastMw]) =
       reduceRight (\<lambda>next mw. mw api next) (lastMw api raw) mws
   \<and> reduceRight (\<lambda>next mw. mw api next) raw (firstMw # mws) =
       firstMw api (reduceRight (\<lambda>next mw. mw api next) raw mws)
   \<and> reduceRight (\<lambda>next mw. mw api next) raw mws = composed api mws raw"
proof -
  have 1: "api_setState (fst (createStoreAPI initialState options m)) =
     composed (storeMethods initialState options (Suc (storeIdCounter m)))
       (case opt_middleware options of Some mws \<Rightarrow> mws | None \<Rightarrow> []) setState"
    by (simp add: api_of_createStoreAPI applyMiddleware_setState) (simp add: storeMethods_def)
  have 2: "reduceRight (\<lambda>next mw. mw api next) raw [] = raw"
    by simp
  have 3: "reduceRight (\<lambda>next mw. mw api next) raw (mws @ [lastMw]) =
       reduceRight (\<lambda>next mw. mw api next) (lastMw api raw) mws"
    by simp
  have 4: "reduceRight (\<lambda>next mw. mw api next) raw (firstMw # mws) =
       firstMw api (reduceRight (\<lambda>next mw. mw api next) raw mws)"
    by simp
  have 5: "reduceRight (\<lambda>next mw. mw api next) raw mws = composed api mws raw"
    by (rule reduceRight_composed)
  from 1 2 3 4 5 show ?thesis by blast
qed

text \<open>
  With the list of a middleware tagged \<^verbatim>\<open>first\<close> and one tagged \<^verbatim>\<open>last\<close>, a write logs
  \<^verbatim>\<open>first\<close> before \<^verbatim>\<open>last\<close>: the first of the list is the outermost.
\<close>

theorem middleware_composed_right_to_left_witness:
  "trace (fst (api_setState
      (fst (createStoreAPI [(''count'', Num 0)]
         (noOptions\<lparr>opt_middleware := Some [tagging ''first'', tagging ''last'']\<rparr>) emptyMachine))
      (Patch [(''count'', Num 0)]) counterStore))
   = [ConsoleError ''first'' Undefined, ConsoleError ''last'' Undefined]"
proof -
  let ?options = "noOptions\<lparr>opt_middleware := Some [tagging ''first'', tagging ''last'']\<rparr>"
  have nd: "noDifference (ownProps (heap m) (state m)) (candidate m [(''count'', Num 0)])"
    if "heap m = heap counterStore" "state m = state counterStore" for m :: "nat machine"
    using that by (simp add: noDifference_def candidate_def counterStore_eq spread2_def)
  have raw: "trace (fst (setState (Patch [(''count'', Num 0)]) m)) = trace m"
    if "heap m = heap counterStore" "state m = state counterStore"
      "nextId m = nextId counterStore" for m :: "nat machine"
  proof -
    have "storeInv m" using that by (simp add: storeInv_def counterStore_eq)
    from setState_noop [OF this _ nd [OF that(1,2)], of "Patch [(''count'', Num 0)]"]
    show ?thesis by (simp add: patchOf_def)
  qed
  from middleware_composed_right_to_left
    [THEN conjunct1, of "[(''count'', Num 0)]" ?options emptyMachine]
  show ?thesis
    by (simp add: composed_def tagging_def raw) (simp add: counterStore_eq)
qed

text \<open>
  Claim C7. For an action of the definition, bound under its key: when the action
  throws on the call's arguments, the bound action logs the error through
  \<^verbatim>\<open>console.error\<close> with the message that names the key, changes nothing else, and
  throws the same error to its caller. The same holds when the action returns an
  updater and the store's \<^verbatim>\<open>setState\<close> throws on it.
\<close>

theorem bound_action_logs_and_rethrows:
  assumes "distinct (map fst actions)" and "map_of actions key = Some action"
  shows "\<exists>bound. map_of (bindActionsToStore store actions) key = Some bound
          \<and> (\<forall>args m error. action args = Throw error \<longrightarrow>
                bound args m =
                  (m\<lparr>trace := trace m @
                      [ConsoleError (''[ServerSync] Error in action \"'' @ key @ ''\":'') error]\<rparr>,
                   Throw error))
          \<and> (\<forall>args m updater m' error.
                action args = Normal updater \<and> api_setState store updater m = (m', Throw error)
                \<longrightarrow> bound args m =
                  (m'\<lparr>trace := trace m' @
                      [ConsoleError (''[ServerSync] Error in action \"'' @ key @ ''\":'') error]\<rparr>,
                   Throw error))"
proof -
  have "map_of (bindActionsToStore store actions) key = Some (boundAction store key action)"
    by (rule bindActionsToStore_lookup [OF assms])
  then show ?thesis
    by (simp add: boundAction_def catchAction_def actionErrorMessage_def)
qed

text \<open>
  An action that throws, and the \<^verbatim>\<open>errorAction\<close> of the tests, whose updater throws in
  \<^verbatim>\<open>setState\<close>: both bound actions log under their key and throw the error.
\<close>

theorem bound_action_logs_and_rethrows_witness:
  "(\<exists>bound.
     map_of (bindActionsToStore (fst (createStoreAPI [(''count'', Num 0)] noOptions emptyMachine))
       [(''boom'', throwingAction), (''errorAction'', errorAction)]) ''boom'' = Some bound
     \<and> bound [] counterStore =
         (counterStore\<lparr>trace :=
            [ConsoleError ''[ServerSync] Error in action \"boom\":'' (Str ''Action error'')]\<rparr>,
          Throw (Str ''Action error'')))
   \<and> (\<exists>bound.
     map_of (bindActionsToStore (fst (createStoreAPI [(''count'', Num 0)] noOptions emptyMachine))
       [(''boom'', throwingAction), (''errorAction'', errorAction)]) ''errorAction'' = Some bound
     \<and> bound [] counterStore =
         (counterStore\<lparr>trace :=
            [ConsoleError ''[ServerSync] Error in action \"errorAction\":'' (Str ''Action error'')]\<rparr>,
          Throw (Str ''Action error'')))"
proof -
  let ?store = "fst (createStoreAPI [(''count'', Num 0)] noOptions emptyMachine)"
  let ?actions = "[(''boom'', throwingAction), (''errorAction'', errorAction)]"
  have d: "distinct (map fst ?actions)" by simp
  have a1: "map_of ?actions ''boom'' = Some throwingAction" by simp
  have a2: "map_of ?actions ''errorAction'' = Some errorAction" by simp
  have t: "throwingAction [] = Throw (Str ''Action error'')"
    by (simp add: throwingAction_def)
  have r: "errorAction [] = Normal (UpdaterFn (\<lambda>h s. Throw (Str ''Action error'')))"
    by (simp add: errorAction_def)
  have s: "api_setState ?store (UpdaterFn (\<lambda>h s. Throw (Str ''Action error''))) counterStore
      = (counterStore, Throw (Str ''Action error''))"
    by (simp add: setState_noOptions setState_throw patchOf_def)
  have tr: "trace counterStore = []" by (simp add: counterStore_eq)
  from bound_action_logs_and_rethrows [OF d a1, of ?store] t tr
  have 1: "\<exists>bound. map_of (bindActionsToStore ?store ?actions) ''boom'' = Some bound
     \<and> bound [] counterStore =
         (counterStore\<lparr>trace :=
            [ConsoleError ''[ServerSync] Error in action \"boom\":'' (Str ''Action error'')]\<rparr>,
          Throw (Str ''Action error''))"
    by auto
  from bound_action_logs_and_rethrows [OF d a2, of ?store] r s tr
  have 2: "\<exists>bound. map_of (bindActionsToStore ?store ?actions) ''errorAction'' = Some bound
     \<and> bound [] counterStore =
         (counterStore\<lparr>trace :=
            [ConsoleError ''[ServerSync] Error in action \"errorAction\":'' (Str ''Action error'')]\<rparr>,
          Throw (Str ''Action error''))"
    by auto
  from 1 2 show ?thesis by blast
qed




text \<open>
  Claim C9. \<^verbatim>\<open>shallowEqual(a, b)\<close> is true exactly when \<open>a\<close> and \<open>b\<close> are identical
  under \<^verbatim>\<open>Object.is\<close>, or both are composites (objects or arrays, not null) with the same
  number of own keys such that every own key of \<open>a\<close> is an own key of \<open>b\<close> and the two
  values under it are identical. Hence \<^verbatim>\<open>shallowEqual(s, s)\<close> is true for every \<open>s\<close>.
\<close>

theorem shallowEqual_characterisation:
  "(shallowEqual h a b \<longleftrightarrow>
      (objectIs a b \<or>
       (isComposite a \<and> isComposite b \<and>
        length (keys h a) = length (keys h b) \<and>
        (\<forall>k\<in>set (keys h a).
           hasOwnProperty h b k \<and> objectIs (getProp h a k) (getProp h b k)))))
   \<and> shallowEqual h s s"
proof -
  have refl: "shallowEqual h s s"
    by (simp add: shallowEqual_def objectIs_def)
  have "shallowEqual h a b \<longleftrightarrow>
      (objectIs a b \<or>
       ((typeof a = ''object'' \<and> a \<noteq> Null) \<and> (typeof b = ''object'' \<and> b \<noteq> Null) \<and>
        length (keys h a) = length (keys h b) \<and> compareKeys h a b (keys h a)))"
    unfolding shallowEqual_def Let_def by auto
  then show ?thesis
    using refl unfolding isComposite_typeof compareKeys_iff by blast
qed

text \<open>
  Two objects with the same keys and identical values are equal, also when they are
  different objects; a different user object under the same key, or null, is not. NaN
  is equal to itself, and the two zeros are not equal.
\<close>

theorem shallowEqual_characterisation_witness:
  "shallowEqual exampleHeap (Ref 1) (Ref 2) \<and> \<not> shallowEqual exampleHeap (Ref 1) (Ref 3)
   \<and> \<not> shallowEqual exampleHeap (Ref 1) Null \<and> shallowEqual exampleHeap NaN NaN
   \<and> \<not> shallowEqual exampleHeap (Num 0) NegZero"
  using shallowEqual_characterisation [of exampleHeap "Ref 1" "Ref 2" NaN]
    shallowEqual_characterisation [of exampleHeap "Ref 1" "Ref 3" NaN]
    shallowEqual_characterisation [of exampleHeap "Ref 1" Null NaN]
    shallowEqual_characterisation [of exampleHeap "Num 0" NegZero NaN]
  by (simp add: exampleHeap_def objectIs_def isComposite_def keys_def hasOwnProperty_def
      getProp_def)

text \<open>
  Claim C10. \<^verbatim>\<open>destroy()\<close> empties the listener set and removes the store's key from the
  registry; the state, the heap, the counters, the world and the trace are as before. It
  does not disable writing: a later \<^verbatim>\<open>setState\<close> whose candidate differs from the
  current state completes normally and installs a new state object with the properties
  of the candidate, which \<^verbatim>\<open>getState()\<close> and \<^verbatim>\<open>getSnapshot()\<close> return; it invokes no
  listener and logs nothing.
\<close>

theorem destroy_keeps_write_path:
  assumes inv: "storeInv m"
    and patch: "patchOf updater (destroy storeId m) = Normal patch"
    and diff: "\<not> noDifference (ownProps (heap (destroy storeId m)) (state (destroy storeId m)))
                 (candidate (destroy storeId m) patch)"
  shows "listeners (destroy storeId m) = []
         \<and> set (storeRegistry (destroy storeId m)) = set (storeRegistry m) - {storeId}
         \<and> getState (destroy storeId m) = getState m
         \<and> heap (destroy storeId m) = heap m
         \<and> nextId (destroy storeId m) = nextId m
         \<and> storeIdCounter (destroy storeId m) = storeIdCounter m
         \<and> world (destroy storeId m) = world m
         \<and> trace (destroy storeId m) = trace m
         \<and> snd (setState updater (destroy storeId m)) = Normal Undefined
         \<and> getState (fst (setState updater (destroy storeId m))) \<noteq> getState m
         \<and> getSnapshot (fst (setState updater (destroy storeId m)))
             = getState (fst (setState updater (destroy storeId m)))
         \<and> ownProps (heap (fst (setState updater (destroy storeId m))))
               (getState (fst (setState updater (destroy storeId m))))
             = spread2 (ownProps (heap m) (getState m)) patch
         \<and> since (destroy storeId m) (fst (setState updater (destroy storeId m))) = []
         \<and> world (fst (setState updater (destroy storeId m))) = world m"
proof -
  from inv obtain p where p: "state m = Ref p" "p < nextId m"
    by (rule storeInvE)
  have inv': "storeInv (destroy storeId m)" using inv by simp
  have reg: "set (storeRegistry (destroy storeId m)) = set (storeRegistry m) - {storeId}"
    by (auto simp: destroy_def)
  from setState_change [OF inv' patch diff] p reg show ?thesis
    by (simp add: getState_def getSnapshot_def candidate_def since_def)
qed

text \<open>
  The counter store with a listener, destroyed: the registry is empty, and
  \<^verbatim>\<open>setState({ count: 1 })\<close> sets the count to 1 and adds nothing to the trace.
\<close>

theorem destroy_keeps_write_path_witness:
  "storeInv (subscribe (goodListener 1) counterStore)
   \<and> storeRegistry (subscribe (goodListener 1) counterStore) = [1]
   \<and> storeRegistry (destroy 1 (subscribe (goodListener 1) counterStore)) = []
   \<and> getProp (heap (fst (setState (Patch [(''count'', Num 1)])
           (destroy 1 (subscribe (goodListener 1) counterStore)))))
        (getState (fst (setState (Patch [(''count'', Num 1)])
           (destroy 1 (subscribe (goodListener 1) counterStore))))) ''count'' = Num 1
   \<and> since (destroy 1 (subscribe (goodListener 1) counterStore))
        (fst (setState (Patch [(''count'', Num 1)])
           (destroy 1 (subscribe (goodListener 1) counterStore)))) = []"
proof -
  let ?m = "subscribe (goodListener 1) counterStore"
  have inv: "storeInv ?m" by (simp add: counterStore_inv)
  have patch: "patchOf (Patch [(''count'', Num 1)]) (destroy 1 ?m) = Normal [(''count'', Num 1)]"
    by (simp add: patchOf_def)
  have diff: "\<not> noDifference (ownProps (heap (destroy 1 ?m)) (state (destroy 1 ?m)))
      (candidate (destroy 1 ?m) [(''count'', Num 1)])"
    using counterStore_changes by (simp add: candidate_def)
  have r1: "storeRegistry ?m = [1]"
    by (simp add: subscribe_def counterStore_eq)
  have r2: "storeRegistry (destroy 1 ?m) = []"
    by (simp add: destroy_def subscribe_def counterStore_eq)
  have cur: "spread2 (ownProps (heap ?m) (getState ?m)) [(''count'', Num 1)] = [(''count'', Num 1)]"
    by (simp add: getState_def counterStore_eq spread2_def)
  from destroy_keeps_write_path [OF inv patch diff] inv r1 r2 cur
  show ?thesis by (simp add: getProp_def)
qed

end
